theory Spec2Isabelle
  imports Main "HOL-Library.Sublist" "HOL-Library.Multiset"
begin

section \<open>The scanner of \<^verbatim>\<open>src/main.py\<close>\<close>

text \<open>
  The program is a small website scanner: a breadth-first crawl bounded by a depth
  (\<^verbatim>\<open>crawl_website\<close>), two probes over fixed path lists (\<^verbatim>\<open>check_env_files\<close>,
  \<^verbatim>\<open>check_admin_panels\<close>) and a version scraper
  (\<^verbatim>\<open>get_installed_software_versions\<close>).

  Python strings are modelled as \<^typ>\<open>string\<close>, one \<^typ>\<open>char\<close> per code point
  below 256. Python's unbounded \<^verbatim>\<open>int\<close> is \<^typ>\<open>int\<close>.
\<close>

subsection \<open>Exceptions\<close>

text \<open>
  The exceptions the source can raise: a \<^verbatim>\<open>requests.exceptions.RequestException\<close>
  (which \<^verbatim>\<open>HTTPError\<close> is a subclass of, so the handlers of the source catch both),
  a \<^verbatim>\<open>KeyError\<close> from subscripting a tag with an attribute it lacks, an
  \<^verbatim>\<open>IndexError\<close> from subscripting a list out of range, a \<^verbatim>\<open>ValueError\<close> from
  \<^verbatim>\<open>urljoin\<close> or \<^verbatim>\<open>urlparse\<close> on a malformed URL, and a
  \<^verbatim>\<open>bs4.exceptions.ParserRejectedMarkup\<close> from \<^verbatim>\<open>BeautifulSoup\<close>. Every handler of
  the source is \<^verbatim>\<open>except requests.exceptions.RequestException\<close>, so the last four pass
  through all of them.
\<close>

datatype exn = RequestException | KeyError | IndexError | ValueError | ParserRejectedMarkup

subsection \<open>The libraries the source calls\<close>

text \<open>
  \<^verbatim>\<open>requests\<close>, \<^verbatim>\<open>bs4\<close> and \<^verbatim>\<open>urllib.parse\<close> are not part of the repository. What
  the source uses of them is a parameter of the model, the record \<open>env\<close>:
  \<^item> \<open>requests_get u\<close> is \<^verbatim>\<open>requests.get(u, timeout=5)\<close>: \<open>None\<close> when the call
    raises a \<^verbatim>\<open>RequestException\<close> (connection refused, timeout, invalid URL), the
    response otherwise. A URL answers the same way each time it is asked.
  \<^item> \<open>BeautifulSoup body\<close> is \<^verbatim>\<open>BeautifulSoup(body, 'html.parser')\<close>: \<open>None\<close> when the
    call raises \<^verbatim>\<open>ParserRejectedMarkup\<close>, otherwise the tags of the document in
    document order, which is all that \<^verbatim>\<open>find_all\<close> and \<^verbatim>\<open>find\<close> look at.
  \<^item> \<open>urljoin\<close> and \<open>urlparse\<close> are those of \<^verbatim>\<open>urllib.parse\<close>: \<open>None\<close> when the call
    raises a \<^verbatim>\<open>ValueError\<close>, as both do on \<^verbatim>\<open>http://[\<close>, whose host has an opening
    bracket and no closing one. Of the parse result only \<open>scheme\<close> and \<open>netloc\<close> are
    kept.
  The field \<open>resp_text\<close> of a response is \<^verbatim>\<open>response.text\<close>.
\<close>

record response =
  status_code :: int
  resp_text :: string

record tag =
  tag_name :: string
  attrs :: "string \<rightharpoonup> string"

record parse_result =
  scheme :: string
  netloc :: string

record env =
  requests_get :: "string \<Rightarrow> response option"
  BeautifulSoup :: "string \<Rightarrow> tag list option"
  urljoin :: "string \<Rightarrow> string \<Rightarrow> string option"
  urlparse :: "string \<Rightarrow> parse_result option"

text \<open>
  \<^verbatim>\<open>response.raise_for_status()\<close> raises an \<^verbatim>\<open>HTTPError\<close> exactly for the statuses
  400 to 599.
\<close>

definition raise_for_status :: "response \<Rightarrow> exn + unit" where
  "raise_for_status response =
     (if 400 \<le> status_code response \<and> status_code response < 600
      then Inl RequestException else Inr ())"

text \<open>\<^verbatim>\<open>soup.find_all(name)\<close>: the tags of that name, in document order.\<close>

definition find_all :: "string \<Rightarrow> tag list \<Rightarrow> tag list" where
  "find_all nm soup = filter (\<lambda>t. tag_name t = nm) soup"

text \<open>
  \<^verbatim>\<open>[link['href'] for link in soup.find_all('a', href=True)]\<close>: the \<^verbatim>\<open>href\<close> values of the
  anchors that have one. The subscript cannot fail, since \<^verbatim>\<open>href=True\<close> keeps only the
  tags with the attribute.
\<close>

definition find_all_a_href :: "tag list \<Rightarrow> string list" where
  "find_all_a_href soup =
     List.map_filter (\<lambda>t. if tag_name t = ''a'' then attrs t ''href'' else None) soup"

text \<open>
  \<^verbatim>\<open>soup.find(name, {key: value})\<close>: the first tag of that name whose attribute \<open>key\<close>
  is exactly \<open>value\<close>, or \<^verbatim>\<open>None\<close>.
\<close>

definition soup_find :: "string \<Rightarrow> string \<Rightarrow> string \<Rightarrow> tag list \<Rightarrow> tag option" where
  "soup_find nm key val soup =
     List.find (\<lambda>t. tag_name t = nm \<and> attrs t key = Some val) soup"

subsection \<open>The crawl\<close>

text \<open>
  The state of the loop of \<^verbatim>\<open>crawl_website\<close>: the set \<^verbatim>\<open>visited\<close>, the list
  \<^verbatim>\<open>to_visit\<close>, the trace \<open>crawled\<close> of the pairs that reached
  \<^verbatim>\<open>logging.info(f"Crawling: {current_url} (Depth: {current_depth})")\<close> and the
  \<^verbatim>\<open>requests.get(current_url)\<close> that follows it, in order, and in \<open>raised\<close> the
  exception that has left the \<^verbatim>\<open>try\<close> statement of lines 166 to 178 uncaught, if one
  has: it ends the loop and the function.
\<close>

record crawl_state =
  visited :: "string set"
  to_visit :: "(string \<times> int) list"
  crawled :: "(string \<times> int) list"
  raised :: "exn option"

text \<open>
  The test of line 174, \<^verbatim>\<open>urlparse(absolute_url).netloc == urlparse(url).netloc\<close>, the
  left operand first: \<open>None\<close> when one of the two calls raises its \<^verbatim>\<open>ValueError\<close>.
\<close>

definition same_netloc :: "env \<Rightarrow> string \<Rightarrow> string \<Rightarrow> bool option" where
  "same_netloc e absolute_url url =
     (case urlparse e absolute_url of
        None \<Rightarrow> None
      | Some p \<Rightarrow>
          (case urlparse e url of
             None \<Rightarrow> None
           | Some q \<Rightarrow> Some (netloc p = netloc q)))"

text \<open>
  The inner loop, lines 171 to 175: each link is resolved against the current URL and
  appended with depth \<open>current_depth + 1\<close> when its \<open>netloc\<close> is the seed's. The result
  is \<^verbatim>\<open>to_visit\<close> as the loop leaves it, and the \<^verbatim>\<open>ValueError\<close> that has ended the loop
  early, if one has; what was appended before it stays appended.
\<close>

fun enqueue_links ::
  "env \<Rightarrow> string \<Rightarrow> string \<Rightarrow> int \<Rightarrow> string list \<Rightarrow> (string \<times> int) list \<Rightarrow>
     (string \<times> int) list \<times> exn option"
where
  "enqueue_links e url current_url current_depth [] tv = (tv, None)"
| "enqueue_links e url current_url current_depth (href # links) tv =
     (case urljoin e current_url href of
        None \<Rightarrow> (tv, Some ValueError)
      | Some absolute_url \<Rightarrow>
          (case same_netloc e absolute_url url of
             None \<Rightarrow> (tv, Some ValueError)
           | Some same \<Rightarrow>
               if same
               then enqueue_links e url current_url current_depth links
                      (tv @ [(absolute_url, current_depth + 1)])
               else enqueue_links e url current_url current_depth links tv))"

text \<open>
  One iteration of the \<^verbatim>\<open>while to_visit:\<close> loop, lines 159 to 178. The handler of line
  177 catches the \<^verbatim>\<open>RequestException\<close> of \<^verbatim>\<open>requests.get\<close> and of
  \<^verbatim>\<open>raise_for_status\<close>; the exceptions of \<^verbatim>\<open>BeautifulSoup\<close>, \<^verbatim>\<open>urljoin\<close> and
  \<^verbatim>\<open>urlparse\<close> are of other classes, and go into \<open>raised\<close>.
\<close>

definition crawl_step :: "env \<Rightarrow> string \<Rightarrow> int \<Rightarrow> crawl_state \<Rightarrow> crawl_state" where
  "crawl_step e url depth s =
     (case to_visit s of
        [] \<Rightarrow> s
      | (current_url, current_depth) # rest \<Rightarrow>
          if current_url \<in> visited s \<or> current_depth > depth
          then s\<lparr>to_visit := rest\<rparr>
          else
            (let s1 = s\<lparr>visited := insert current_url (visited s),
                        to_visit := rest,
                        crawled := crawled s @ [(current_url, current_depth)]\<rparr>
             in case requests_get e current_url of
                  None \<Rightarrow> s1
                | Some response \<Rightarrow>
                    (case raise_for_status response of
                       Inl _ \<Rightarrow> s1
                     | Inr _ \<Rightarrow>
                         (case BeautifulSoup e (resp_text response) of
                            None \<Rightarrow> s1\<lparr>raised := Some ParserRejectedMarkup\<rparr>
                          | Some soup \<Rightarrow>
                              (case enqueue_links e url current_url current_depth
                                      (find_all_a_href soup) rest of
                                 (tv, x) \<Rightarrow> s1\<lparr>to_visit := tv, raised := x\<rparr>)))))"

text \<open>
  The loop \<^verbatim>\<open>while to_visit:\<close> of lines 158 to 178: it ends when \<^verbatim>\<open>to_visit\<close> is empty,
  and when an exception has left an iteration.
\<close>

function crawl_loop :: "env \<Rightarrow> string \<Rightarrow> int \<Rightarrow> crawl_state \<Rightarrow> crawl_state" where
  "crawl_loop e url depth s =
     (if to_visit s = [] \<or> raised s \<noteq> None then s
      else crawl_loop e url depth (crawl_step e url depth s))"
  by pat_completeness auto

text \<open>
  \<^verbatim>\<open>crawl_website(url, depth)\<close>: lines 155, 156 and 180 around the loop. The function
  returns \<^verbatim>\<open>visited\<close>, \<open>Inr\<close>, unless an exception has left the loop, \<open>Inl\<close>.
\<close>

definition crawl_init :: "string \<Rightarrow> crawl_state" where
  "crawl_init url = \<lparr>visited = {}, to_visit = [(url, 0)], crawled = [], raised = None\<rparr>"

definition crawl_website :: "env \<Rightarrow> string \<Rightarrow> int \<Rightarrow> exn + string set" where
  "crawl_website e url depth =
     (let s = crawl_loop e url depth (crawl_init url) in
      case raised s of
        None \<Rightarrow> Inr (visited s)
      | Some x \<Rightarrow> Inl x)"

subsection \<open>The probes\<close>





text \<open>
  The loop of \<^verbatim>\<open>check_admin_panels\<close>, lines 82 to 91, with the \<^verbatim>\<open>urljoin\<close> of line 83
  before the \<^verbatim>\<open>try\<close>.
\<close>

fun check_admin_loop :: "env \<Rightarrow> string \<Rightarrow> string list \<Rightarrow> string list \<Rightarrow> exn + string list" where
  "check_admin_loop e url [] found_admin_panels = Inr found_admin_panels"
| "check_admin_loop e url (path # paths) found_admin_panels =
     (case urljoin e url path of
        None \<Rightarrow> Inl ValueError
      | Some admin_url \<Rightarrow>
          (case requests_get e admin_url of
             None \<Rightarrow> check_admin_loop e url paths found_admin_panels
           | Some response \<Rightarrow>
               (case raise_for_status response of
                  Inl _ \<Rightarrow> check_admin_loop e url paths found_admin_panels
                | Inr _ \<Rightarrow>
                    if status_code response = 200 \<or> status_code response = 403
                    then check_admin_loop e url paths (found_admin_panels @ [admin_url])
                    else check_admin_loop e url paths found_admin_panels)))"


subsection \<open>The string methods the version scraper calls\<close>

text \<open>
  \<^verbatim>\<open>str.lower\<close> on the code points below 256: the letters A to Z, and the Latin-1
  capitals 192 to 222 without the multiplication sign 215, move up by 32.
\<close>

definition lower_char :: "char \<Rightarrow> char" where
  "lower_char c =
     (let n = (of_char c :: nat) in
      if (65 \<le> n \<and> n \<le> 90) \<or> (192 \<le> n \<and> n \<le> 222 \<and> n \<noteq> 215)
      then char_of (n + 32) else c)"

definition lower :: "string \<Rightarrow> string" where
  "lower s = map lower_char s"

text \<open>
  \<^verbatim>\<open>str.splitlines\<close>: the line boundaries below 256 are the code points 10 to 13,
  28 to 30 and 133; a carriage return followed by a line feed is one boundary; a
  boundary at the very end opens no further line. The first argument is the line
  read so far, reversed.
\<close>

definition is_linebreak :: "char \<Rightarrow> bool" where
  "is_linebreak c = ((of_char c :: nat) \<in> {10, 11, 12, 13, 28, 29, 30, 133})"

fun splitlines_from :: "string \<Rightarrow> string \<Rightarrow> string list" where
  "splitlines_from cur [] = (if cur = [] then [] else [rev cur])"
| "splitlines_from cur [c] = (if is_linebreak c then [rev cur] else [rev (c # cur)])"
| "splitlines_from cur (c # d # cs) =
     (if (of_char c :: nat) = 13 \<and> (of_char d :: nat) = 10
      then rev cur # splitlines_from [] cs
      else if is_linebreak c then rev cur # splitlines_from [] (d # cs)
      else splitlines_from (c # cur) (d # cs))"

definition splitlines :: "string \<Rightarrow> string list" where
  "splitlines s = splitlines_from [] s"

text \<open>
  \<^verbatim>\<open>s.split(sep)\<close> for a separator of one character: one more piece than there are
  separators in \<open>s\<close>.
\<close>

fun split_from :: "char \<Rightarrow> string \<Rightarrow> string \<Rightarrow> string list" where
  "split_from sep cur [] = [rev cur]"
| "split_from sep cur (c # cs) =
     (if c = sep then rev cur # split_from sep [] cs else split_from sep (c # cur) cs)"

definition py_split :: "char \<Rightarrow> string \<Rightarrow> string list" where
  "py_split sep s = split_from sep [] s"

text \<open>
  \<^verbatim>\<open>str.strip()\<close>: the white space below 256 is 9 to 13, 28 to 32, 133 and 160.
\<close>

definition is_space :: "char \<Rightarrow> bool" where
  "is_space c = ((of_char c :: nat) \<in> {9, 10, 11, 12, 13, 28, 29, 30, 31, 32, 133, 160})"

definition strip :: "string \<Rightarrow> string" where
  "strip s = rev (dropWhile is_space (rev (dropWhile is_space s)))"

text \<open>\<^verbatim>\<open>s.replace(old, new)\<close> for an \<open>old\<close> of one character.\<close>

definition replace :: "char \<Rightarrow> string \<Rightarrow> string \<Rightarrow> string" where
  "replace old new s = concat (map (\<lambda>c. if c = old then new else [c]) s)"

subsection \<open>The version scraper\<close>

text \<open>
  The loop of lines 107 to 110 over \<^verbatim>\<open>soup.find_all('meta')\<close>. Here the subscript
  \<^verbatim>\<open>meta.attrs['content']\<close> is guarded by \<^verbatim>\<open>'content' in meta.attrs\<close>.
\<close>

fun generator_metas :: "tag list \<Rightarrow> string list \<Rightarrow> string list" where
  "generator_metas [] version_info = version_info"
| "generator_metas (meta # metas) version_info =
     (case attrs meta ''name'' of
        None \<Rightarrow> generator_metas metas version_info
      | Some nm \<Rightarrow>
          if sublist ''generator'' (lower nm)
          then (case attrs meta ''content'' of
                  None \<Rightarrow> generator_metas metas version_info
                | Some content \<Rightarrow>
                    generator_metas metas (version_info @ [''Generator: '' @ content]))
          else generator_metas metas version_info)"

text \<open>
  Lines 117 to 119: \<^verbatim>\<open>generator_tag['content']\<close> is not guarded, and raises a
  \<^verbatim>\<open>KeyError\<close> on a tag without that attribute. A tag is true as a condition, so
  \<^verbatim>\<open>if generator_tag:\<close> asks only whether one was found.
\<close>

definition generator_tag_line :: "tag list \<Rightarrow> string list \<Rightarrow> exn + string list" where
  "generator_tag_line soup version_info =
     (case soup_find ''meta'' ''name'' ''generator'' soup of
        None \<Rightarrow> Inr version_info
      | Some generator_tag \<Rightarrow>
          (case attrs generator_tag ''content'' of
             None \<Rightarrow> Inl KeyError
           | Some content \<Rightarrow> Inr (version_info @ [''WordPress Generator tag: '' @ content])))"

text \<open>
  Lines 123 to 132, the inner \<^verbatim>\<open>try\<close> with its handler, which catches the
  \<^verbatim>\<open>RequestException\<close> of the second fetch and nothing else. The two list subscripts
  are modelled with their \<^verbatim>\<open>IndexError\<close>.
\<close>

definition version_php :: "env \<Rightarrow> string \<Rightarrow> string list \<Rightarrow> exn + string list" where
  "version_php e version_php_url version_info =
     (case requests_get e version_php_url of
        None \<Rightarrow> Inr version_info
      | Some version_php_response \<Rightarrow>
          (case raise_for_status version_php_response of
             Inl _ \<Rightarrow> Inr version_info
           | Inr _ \<Rightarrow>
               if sublist ''wp_version ='' (resp_text version_php_response)
               then
                 (case filter (\<lambda>line. sublist ''wp_version ='' line)
                         (splitlines (resp_text version_php_response)) of
                    [] \<Rightarrow> Inl IndexError
                  | version_line # _ \<Rightarrow>
                      (case py_split (CHR ''='') version_line of
                         _ # piece # _ \<Rightarrow>
                           Inr (version_info @
                             [''WordPress Version from wp-includes/version.php: '' @
                              strip (replace (CHR 0x27) [] (replace (CHR '';'') [] (strip piece)))])
                       | _ \<Rightarrow> Inl IndexError))
               else Inr version_info))"

text \<open>Lines 134 to 137.\<close>

definition report :: "string list \<Rightarrow> string list" where
  "report version_info =
     (if version_info \<noteq> [] then version_info else [''No version information found.''])"

text \<open>
  \<^verbatim>\<open>get_installed_software_versions(url)\<close>. The result is the list of the URLs asked
  of \<^verbatim>\<open>requests.get\<close>, in order, and the outcome: \<open>Inr\<close> the list returned, \<open>Inl\<close> the
  exception that leaves the function. The outer handler of line 139 catches a
  \<^verbatim>\<open>RequestException\<close> only, which the first fetch alone can raise to it; the
  exceptions of \<^verbatim>\<open>BeautifulSoup\<close>, of the subscript of line 119, of the \<^verbatim>\<open>urljoin\<close> of
  line 122 and of the subscripts of lines 127 and 128 pass through it.
\<close>

definition get_installed_software_versions ::
  "env \<Rightarrow> string \<Rightarrow> string list \<times> (exn + string list)"
where
  "get_installed_software_versions e url =
     (case requests_get e url of
        None \<Rightarrow> ([url], Inr [''Error fetching page.''])
      | Some response \<Rightarrow>
          (case raise_for_status response of
             Inl _ \<Rightarrow> ([url], Inr [''Error fetching page.''])
           | Inr _ \<Rightarrow>
               (case BeautifulSoup e (resp_text response) of
                  None \<Rightarrow> ([url], Inl ParserRejectedMarkup)
                | Some soup \<Rightarrow>
                    (let version_info = generator_metas (find_all ''meta'' soup) [] in
                     if sublist ''wp-content'' (resp_text response)
                     then
                       (case generator_tag_line soup
                               (version_info @ [''WordPress site detected'']) of
                          Inl x \<Rightarrow> ([url], Inl x)
                        | Inr version_info' \<Rightarrow>
                            (case urljoin e url ''wp-includes/version.php'' of
                               None \<Rightarrow> ([url], Inl ValueError)
                             | Some version_php_url \<Rightarrow>
                                 (case version_php e version_php_url version_info' of
                                    Inl x \<Rightarrow> ([url, version_php_url], Inl x)
                                  | Inr version_info'' \<Rightarrow>
                                      ([url, version_php_url], Inr (report version_info'')))))
                     else ([url], Inr (report version_info))))))"

subsection \<open>The claims' words\<close>

text \<open>
  The authority of a URL in the words of the specification's glossary: the scheme
  together with host and port, the latter two being \<open>netloc\<close>.
\<close>

definition authority :: "env \<Rightarrow> string \<Rightarrow> (string \<times> string) option" where
  "authority e u = map_option (\<lambda>p. (scheme p, netloc p)) (urlparse e u)"



subsection \<open>Small worlds to run the functions in\<close>

text \<open>
  A world is a server, the list of the URLs that answer with their responses (any
  other URL refuses the connection), and a parser table from bodies to tags (any
  other body has no tags). \<open>stub_urlparse\<close> is \<^verbatim>\<open>urlparse\<close> on URLs of the shape
  \<^verbatim>\<open>scheme://netloc/path\<close>, with the \<^verbatim>\<open>ValueError\<close> of \<^verbatim>\<open>urlsplit\<close> for a \<open>netloc\<close>
  that has one of the two square brackets and not the other. \<open>stub_urljoin\<close> is
  \<^verbatim>\<open>urljoin\<close> where it is used here: it parses the base and then the reference, an
  absolute reference replaces the base, a plain relative path is put after a base
  that ends with a slash.
\<close>

definition stub_urlparse :: "string \<Rightarrow> parse_result option" where
  "stub_urlparse u =
     (let sch = takeWhile (\<lambda>c. c \<noteq> CHR '':'') u;
          loc = takeWhile (\<lambda>c. c \<noteq> CHR ''/'') (drop (length sch + 3) u)
      in if (CHR ''['' \<in> set loc) = (CHR '']'' \<in> set loc)
         then Some \<lparr>scheme = sch, netloc = loc\<rparr>
         else None)"

definition stub_urljoin :: "string \<Rightarrow> string \<Rightarrow> string option" where
  "stub_urljoin base ref =
     (case stub_urlparse base of
        None \<Rightarrow> None
      | Some _ \<Rightarrow>
          if sublist ''://'' ref
          then (case stub_urlparse ref of None \<Rightarrow> None | Some _ \<Rightarrow> Some ref)
          else Some (base @ ref))"

definition world :: "(string \<times> response) list \<Rightarrow> (string \<times> tag list) list \<Rightarrow> env" where
  "world server parser =
     \<lparr>requests_get = map_of server,
      BeautifulSoup = (\<lambda>body. case map_of parser body of None \<Rightarrow> Some [] | Some tags \<Rightarrow> Some tags),
      urljoin = stub_urljoin,
      urlparse = stub_urlparse\<rparr>"

definition anchor :: "string \<Rightarrow> tag" where
  "anchor href = \<lparr>tag_name = ''a'', attrs = [''href'' \<mapsto> href]\<rparr>"

text \<open>
  A site of one page that answers, \<^verbatim>\<open>http://a/i\<close>, with a link to \<^verbatim>\<open>https://a/s\<close>
  (same host, other scheme; it refuses the connection) and a link to itself.
\<close>

definition two_scheme_site :: env where
  "two_scheme_site =
     world
       [(''http://a/i'',
         \<lparr>status_code = 200,
          resp_text = ''<a href=https://a/s>s</a><a href=http://a/i>i</a>''\<rparr>)]
       [(''<a href=https://a/s>s</a><a href=http://a/i>i</a>'',
         [anchor ''https://a/s'', anchor ''http://a/i''])]"

text \<open>A site of two pages that link to each other.\<close>

definition cyclic_site :: env where
  "cyclic_site =
     world
       [(''http://a/i'', \<lparr>status_code = 200, resp_text = ''<a href=http://a/j>j</a>''\<rparr>),
        (''http://a/j'', \<lparr>status_code = 200, resp_text = ''<a href=http://a/i>i</a>''\<rparr>)]
       [(''<a href=http://a/j>j</a>'', [anchor ''http://a/j'']),
        (''<a href=http://a/i>i</a>'', [anchor ''http://a/i''])]"





text \<open>
  The page of one tag \<^verbatim>\<open><meta name="generator" content="WordPress 6.2">\<close>; \<open>dq\<close> is the
  double quote.
\<close>

definition dq :: string where
  "dq = [CHR 0x22]"

definition generator_page :: string where
  "generator_page =
     ''<meta name='' @ dq @ ''generator'' @ dq @ '' content='' @ dq @ ''WordPress 6.2'' @ dq @ ''>''"

definition generator_site :: env where
  "generator_site =
     world [(''http://a/'', \<lparr>status_code = 200, resp_text = generator_page\<rparr>)]
       [(generator_page,
         [\<lparr>tag_name = ''meta'',
           attrs = [''name'' \<mapsto> ''generator'', ''content'' \<mapsto> ''WordPress 6.2'']\<rparr>])]"

text \<open>
  The page \<^verbatim>\<open><meta name="generator">wp-content\<close>: the marker of WordPress, and a
  generator tag without the attribute \<^verbatim>\<open>content\<close>.
\<close>

definition bare_generator_page :: string where
  "bare_generator_page = ''<meta name='' @ dq @ ''generator'' @ dq @ ''>wp-content''"

definition bare_generator_site :: env where
  "bare_generator_site =
     world [(''http://a/'', \<lparr>status_code = 200, resp_text = bare_generator_page\<rparr>)]
       [(bare_generator_page,
         [\<lparr>tag_name = ''meta'', attrs = [''name'' \<mapsto> ''generator'']\<rparr>])]"

subsection \<open>The measure of the loop\<close>

text \<open>
  What decreases in each iteration: the multiset of the distances
  \<open>depth + 1 - d\<close> of the pairs waiting in \<open>to_visit\<close>, in the multiset order. An
  iteration removes one pair and adds only pairs one level deeper, and only when the
  removed pair was within the bound.
\<close>

definition slack :: "int \<Rightarrow> string \<times> int \<Rightarrow> nat" where
  "slack depth p = nat (depth + 1 - snd p)"

definition frontier_weight :: "int \<Rightarrow> crawl_state \<Rightarrow> nat multiset" where
  "frontier_weight depth s = mset (map (slack depth) (to_visit s))"


section \<open>Termination of the crawl\<close>

text \<open>
  What the inner loop leaves: \<open>to_visit\<close> with pairs appended that lie one level
  below the page, on the \<open>netloc\<close> of the seed; and no exception or a \<^verbatim>\<open>ValueError\<close>.
\<close>

lemma enqueue_links_appends:
  "\<exists>new. fst (enqueue_links e url cu cd links tv) = tv @ new \<and>
         (\<forall>p \<in> set new. snd p = cd + 1 \<and> same_netloc e (fst p) url = Some True)"
proof (induction links arbitrary: tv)
  case Nil
  show ?case by simp
next
  case (Cons h links)
  show ?case
  proof (cases "urljoin e cu h")
    case None
    then have "fst (enqueue_links e url cu cd (h # links) tv) = tv @ []" by simp
    then show ?thesis by (metis empty_iff list.set(1))
  next
    case j: (Some a)
    show ?thesis
    proof (cases "same_netloc e a url")
      case None
      then have "fst (enqueue_links e url cu cd (h # links) tv) = tv @ []"
        using j by simp
      then show ?thesis by (metis empty_iff list.set(1))
    next
      case n: (Some same)
      show ?thesis
      proof (cases same)
        case True
        from Cons.IH [of "tv @ [(a, cd + 1)]"]
        obtain new where
          f: "fst (enqueue_links e url cu cd links (tv @ [(a, cd + 1)])) =
                (tv @ [(a, cd + 1)]) @ new"
          and p: "\<forall>p \<in> set new. snd p = cd + 1 \<and> same_netloc e (fst p) url = Some True"
          by blast
        have "fst (enqueue_links e url cu cd (h # links) tv) = tv @ ((a, cd + 1) # new)"
          using j n True f by simp
        moreover have "\<forall>p \<in> set ((a, cd + 1) # new).
            snd p = cd + 1 \<and> same_netloc e (fst p) url = Some True"
          using n True p by simp
        ultimately show ?thesis by blast
      next
        case False
        from Cons.IH [of tv]
        obtain new where
          f: "fst (enqueue_links e url cu cd links tv) = tv @ new"
          and p: "\<forall>p \<in> set new. snd p = cd + 1 \<and> same_netloc e (fst p) url = Some True"
          by blast
        have "fst (enqueue_links e url cu cd (h # links) tv) = tv @ new"
          using j n False f by simp
        with p show ?thesis by blast
      qed
    qed
  qed
qed


text \<open>
  The shape of one iteration: the head of \<open>to_visit\<close> goes, and what is appended
  lies one level below a head that was within the bound.
\<close>

lemma crawl_step_shape:
  assumes "to_visit s = (cu, cd) # rest"
  shows "\<exists>new. to_visit (crawl_step e url depth s) = rest @ new \<and>
           (\<forall>p \<in> set new. cd \<le> depth \<and> snd p = cd + 1 \<and>
              same_netloc e (fst p) url = Some True)"
proof (cases "cu \<in> visited s \<or> cd > depth")
  case True
  then have "to_visit (crawl_step e url depth s) = rest @ []"
    using assms by (auto simp: crawl_step_def)
  then show ?thesis by (metis empty_iff list.set(1))
next
  case False
  then have le: "cd \<le> depth" by simp
  show ?thesis
  proof (cases "requests_get e cu")
    case None
    then have "to_visit (crawl_step e url depth s) = rest @ []"
      using assms False by (simp add: crawl_step_def)
    then show ?thesis by (metis empty_iff list.set(1))
  next
    case g: (Some r)
    show ?thesis
    proof (cases "raise_for_status r")
      case (Inl x)
      then have "to_visit (crawl_step e url depth s) = rest @ []"
        using assms False g by (simp add: crawl_step_def)
      then show ?thesis by (metis empty_iff list.set(1))
    next
      case (Inr u)
      show ?thesis
      proof (cases "BeautifulSoup e (resp_text r)")
        case None
        then have "to_visit (crawl_step e url depth s) = rest @ []"
          using assms False g Inr by (simp add: crawl_step_def)
        then show ?thesis by (metis empty_iff list.set(1))
      next
        case b: (Some soup)
        have tv: "to_visit (crawl_step e url depth s) =
            fst (enqueue_links e url cu cd (find_all_a_href soup) rest)"
          using assms False g Inr b by (simp add: crawl_step_def split: prod.splits)
        from enqueue_links_appends [of e url cu cd "find_all_a_href soup" rest]
        obtain new where
          "fst (enqueue_links e url cu cd (find_all_a_href soup) rest) = rest @ new"
          "\<forall>p \<in> set new. snd p = cd + 1 \<and> same_netloc e (fst p) url = Some True"
          by blast
        then show ?thesis using tv le by auto
      qed
    qed
  qed
qed

lemma crawl_step_decreases:
  assumes "to_visit s \<noteq> []"
  shows "(frontier_weight depth (crawl_step e url depth s), frontier_weight depth s)
           \<in> mult {(a, b). a < b}"
proof -
  from assms obtain cu cd rest where tv: "to_visit s = (cu, cd) # rest"
    by (cases "to_visit s") auto
  from crawl_step_shape [OF tv, of e url depth]
  obtain new where
    n: "to_visit (crawl_step e url depth s) = rest @ new"
    and p: "\<forall>p \<in> set new. cd \<le> depth \<and> snd p = cd + 1 \<and>
              same_netloc e (fst p) url = Some True"
    by blast
  have small: "\<And>b. b \<in># mset (map (slack depth) new) \<Longrightarrow> b < slack depth (cu, cd)"
  proof -
    fix b assume "b \<in># mset (map (slack depth) new)"
    then obtain q where q: "q \<in> set new" "b = slack depth q" by auto
    with p have "cd \<le> depth" "snd q = cd + 1" by auto
    then show "b < slack depth (cu, cd)"
      using q by (simp add: slack_def)
  qed
  have "(mset (map (slack depth) rest) + mset (map (slack depth) new),
         add_mset (slack depth (cu, cd)) (mset (map (slack depth) rest)))
          \<in> mult1 {(a, b). a < b}"
    by (rule mult1I [OF refl refl]) (simp add: small)
  then have "(frontier_weight depth (crawl_step e url depth s), frontier_weight depth s)
               \<in> mult1 {(a, b). a < b}"
    by (simp add: frontier_weight_def n tv)
  then show ?thesis
    by (simp add: mult_def)
qed

termination crawl_loop
proof (relation "inv_image (mult {(a, b). a < b}) (\<lambda>(e, url, depth, s). frontier_weight depth s)")
  have "wf {(a :: nat, b). a < b}"
    using wf_less by (simp add: less_than_def [symmetric] del: wf_less)
  then show "wf (inv_image (mult {(a :: nat, b). a < b})
      (\<lambda>(e :: env, url :: string, depth, s). frontier_weight depth s))"
    by (intro wf_inv_image wf_mult)
next
  fix e :: env and url :: string and depth :: int and s :: crawl_state
  assume "\<not> (to_visit s = [] \<or> raised s \<noteq> None)"
  then have "to_visit s \<noteq> []" by simp
  then show "((e, url, depth, crawl_step e url depth s), (e, url, depth, s))
    \<in> inv_image (mult {(a, b). a < b}) (\<lambda>(e, url, depth, s). frontier_weight depth s)"
    by (simp add: crawl_step_decreases)
qed


section \<open>The loop and its invariants\<close>

text \<open>
  The equation of \<open>crawl_loop\<close> rewrites its own right-hand side, so it is used
  only where it is named.
\<close>

declare crawl_loop.simps [simp del]

lemma crawl_loop_empty:
  "to_visit s = [] \<or> raised s \<noteq> None \<Longrightarrow> crawl_loop e url depth s = s"
  by (subst crawl_loop.simps) simp

lemma crawl_loop_unfold:
  "to_visit s \<noteq> [] \<Longrightarrow> raised s = None \<Longrightarrow>
     crawl_loop e url depth s = crawl_loop e url depth (crawl_step e url depth s)"
  by (subst crawl_loop.simps) simp

lemma crawl_loop_invariant:
  assumes init: "P s"
    and step: "\<And>s. P s \<Longrightarrow> to_visit s \<noteq> [] \<Longrightarrow> raised s = None \<Longrightarrow>
                 P (crawl_step e url depth s)"
  shows "P (crawl_loop e url depth s)"
  using init step
proof (induction e url depth s rule: crawl_loop.induct)
  case (1 e url depth s)
  show ?case
  proof (cases "to_visit s = [] \<or> raised s \<noteq> None")
    case True
    have "crawl_loop e url depth s = s" using True by (rule crawl_loop_empty)
    then show ?thesis using "1.prems"(1) by simp
  next
    case False
    then have ne: "to_visit s \<noteq> []" and nr: "raised s = None" by simp_all
    have "P (crawl_step e url depth s)"
      using "1.prems"(1) ne nr by (rule "1.prems"(2))
    then have "P (crawl_loop e url depth (crawl_step e url depth s))"
      using "1.prems"(2) by (rule "1.IH" [OF False])
    then show ?thesis using crawl_loop_unfold [OF ne nr, of e url depth] by simp
  qed
qed

lemma crawl_loop_iterates:
  "\<exists>n. (to_visit ((crawl_step e url depth ^^ n) s) = [] \<or>
        raised ((crawl_step e url depth ^^ n) s) \<noteq> None) \<and>
       crawl_loop e url depth s = (crawl_step e url depth ^^ n) s"
proof (induction e url depth s rule: crawl_loop.induct)
  case (1 e url depth s)
  show ?case
  proof (cases "to_visit s = [] \<or> raised s \<noteq> None")
    case True
    then have "(to_visit ((crawl_step e url depth ^^ 0) s) = [] \<or>
        raised ((crawl_step e url depth ^^ 0) s) \<noteq> None) \<and>
       crawl_loop e url depth s = (crawl_step e url depth ^^ 0) s"
      using crawl_loop_empty [OF True, of e url depth] by simp
    then show ?thesis by blast
  next
    case False
    then have ne: "to_visit s \<noteq> []" and nr: "raised s = None" by simp_all
    from "1.IH" [OF False] obtain n where
      n: "to_visit ((crawl_step e url depth ^^ n) (crawl_step e url depth s)) = [] \<or>
          raised ((crawl_step e url depth ^^ n) (crawl_step e url depth s)) \<noteq> None"
         "crawl_loop e url depth (crawl_step e url depth s) =
            (crawl_step e url depth ^^ n) (crawl_step e url depth s)"
      by blast
    have "(to_visit ((crawl_step e url depth ^^ Suc n) s) = [] \<or>
        raised ((crawl_step e url depth ^^ Suc n) s) \<noteq> None) \<and>
       crawl_loop e url depth s = (crawl_step e url depth ^^ Suc n) s"
      using n crawl_loop_unfold [OF ne nr, of e url depth] by (simp add: funpow_swap1)
    then show ?thesis by blast
  qed
qed

lemma crawl_step_skip:
  assumes "to_visit s = (cu, cd) # rest" and "cu \<in> visited s \<or> cd > depth"
  shows "crawl_step e url depth s = s\<lparr>to_visit := rest\<rparr>"
  using assms by (auto simp: crawl_step_def)

lemma crawl_step_visit:
  assumes "to_visit s = (cu, cd) # rest" and "cu \<notin> visited s" and "cd \<le> depth"
  shows "visited (crawl_step e url depth s) = insert cu (visited s) \<and>
         crawled (crawl_step e url depth s) = crawled s @ [(cu, cd)]"
  using assms
  by (auto simp: crawl_step_def Let_def split: option.splits sum.splits prod.splits)


text \<open>
  The \<open>netloc\<close> of the seed is kept: what is visited and what waits is the seed or
  has passed the test of line 174.
\<close>

lemma crawl_step_netloc:
  assumes v: "\<forall>u \<in> visited s. u = url \<or> same_netloc e u url = Some True"
    and t: "\<forall>p \<in> set (to_visit s). fst p = url \<or> same_netloc e (fst p) url = Some True"
    and ne: "to_visit s \<noteq> []"
  shows "(\<forall>u \<in> visited (crawl_step e url depth s).
            u = url \<or> same_netloc e u url = Some True) \<and>
         (\<forall>p \<in> set (to_visit (crawl_step e url depth s)).
            fst p = url \<or> same_netloc e (fst p) url = Some True)"
proof -
  from ne obtain cu cd rest where tv: "to_visit s = (cu, cd) # rest"
    by (cases "to_visit s") auto
  from crawl_step_shape [OF tv, of e url depth] obtain new where
    n: "to_visit (crawl_step e url depth s) = rest @ new"
    and p: "\<forall>p \<in> set new. cd \<le> depth \<and> snd p = cd + 1 \<and>
              same_netloc e (fst p) url = Some True"
    by blast
  have front: "\<forall>p \<in> set (to_visit (crawl_step e url depth s)).
            fst p = url \<or> same_netloc e (fst p) url = Some True"
    using n p t tv by auto
  have cu: "cu = url \<or> same_netloc e cu url = Some True"
    using t tv by auto
  have "\<forall>u \<in> visited (crawl_step e url depth s). u = url \<or> same_netloc e u url = Some True"
  proof (cases "cu \<in> visited s \<or> cd > depth")
    case True
    then show ?thesis using crawl_step_skip [OF tv True, of e url] v by simp
  next
    case False
    then have "visited (crawl_step e url depth s) = insert cu (visited s)"
      using crawl_step_visit [OF tv, of depth e url] by simp
    then show ?thesis using v cu by simp
  qed
  with front show ?thesis by blast
qed

lemma crawl_step_trace:
  assumes d: "\<forall>p \<in> set (crawled s). snd p \<le> depth"
    and v: "visited s = fst ` set (crawled s)"
    and ne: "to_visit s \<noteq> []"
  shows "(\<forall>p \<in> set (crawled (crawl_step e url depth s)). snd p \<le> depth) \<and>
         visited (crawl_step e url depth s) = fst ` set (crawled (crawl_step e url depth s))"
proof -
  from ne obtain cu cd rest where tv: "to_visit s = (cu, cd) # rest"
    by (cases "to_visit s") auto
  show ?thesis
  proof (cases "cu \<in> visited s \<or> cd > depth")
    case True
    then show ?thesis using crawl_step_skip [OF tv True, of e url] d v by simp
  next
    case False
    then have "visited (crawl_step e url depth s) = insert cu (visited s)"
      "crawled (crawl_step e url depth s) = crawled s @ [(cu, cd)]" "cd \<le> depth"
      using crawl_step_visit [OF tv, of depth e url] by simp_all
    then show ?thesis using d v by auto
  qed
qed


text \<open>
  What \<open>crawl_website\<close> yields, read off the state the loop ends in.
\<close>

lemma crawl_website_returns:
  "raised (crawl_loop e url depth (crawl_init url)) = None \<Longrightarrow>
     crawl_website e url depth = Inr (visited (crawl_loop e url depth (crawl_init url)))"
  by (simp add: crawl_website_def Let_def)

lemma crawl_website_raises:
  "raised (crawl_loop e url depth (crawl_init url)) = Some x \<Longrightarrow>
     crawl_website e url depth = Inl x"
  by (simp add: crawl_website_def Let_def)

lemma crawl_website_Inr:
  "crawl_website e url depth = Inr S \<Longrightarrow>
     S = visited (crawl_loop e url depth (crawl_init url))"
  by (auto simp: crawl_website_def Let_def split: option.splits)


section \<open>Running the crawl on small sites\<close>

text \<open>
  The facts below evaluate one iteration and whole crawls on the sites defined above.
\<close>

lemmas run_simps = world_def crawl_step_def crawl_init_def raise_for_status_def
  find_all_a_href_def anchor_def same_netloc_def stub_urljoin_def stub_urlparse_def
  sublist_code Let_def

lemma two_scheme_first:
  "crawl_step two_scheme_site ''http://a/i'' depth (crawl_init ''http://a/i'') =
     (if 0 \<le> depth
      then \<lparr>visited = {''http://a/i''},
            to_visit = [(''https://a/s'', 1), (''http://a/i'', 1)],
            crawled = [(''http://a/i'', 0)],
            raised = None\<rparr>
      else \<lparr>visited = {}, to_visit = [], crawled = [], raised = None\<rparr>)"
  by (simp add: two_scheme_site_def run_simps)

lemma two_scheme_crawl:
  "crawl_loop two_scheme_site ''http://a/i'' 1 (crawl_init ''http://a/i'') =
     \<lparr>visited = {''https://a/s'', ''http://a/i''},
      to_visit = [],
      crawled = [(''http://a/i'', 0), (''https://a/s'', 1)],
      raised = None\<rparr>"
  by (simp add: two_scheme_site_def run_simps crawl_loop.simps)

lemma two_scheme_netloc:
  "same_netloc two_scheme_site ''https://a/s'' ''http://a/i'' = Some True"
  by (simp add: two_scheme_site_def world_def same_netloc_def stub_urlparse_def)

lemma two_scheme_authority:
  "authority two_scheme_site ''https://a/s'' \<noteq> authority two_scheme_site ''http://a/i''"
  by (simp add: authority_def two_scheme_site_def world_def stub_urlparse_def)

lemma cyclic_crawl:
  "crawl_loop cyclic_site ''http://a/i'' 5 (crawl_init ''http://a/i'') =
     \<lparr>visited = {''http://a/j'', ''http://a/i''},
      to_visit = [],
      crawled = [(''http://a/i'', 0), (''http://a/j'', 1)],
      raised = None\<rparr>"
  by (simp add: cyclic_site_def run_simps crawl_loop.simps)


section \<open>The claims about the crawl\<close>

text \<open>
  Claim C1, as amended. The claim asks of every pair \<open>(u, d)\<close> put on the frontier
  that \<open>u\<close> is neither on the frontier nor visited, that the authority (scheme, host
  and port) of \<open>u\<close> is the seed's, and that \<open>d\<close> is at most the maximal depth. The
  loop checks none of the first, compares \<open>netloc\<close> only, and appends at the depth of
  the page it is expanding plus one. What holds of an iteration that starts with
  \<open>(cu, cd)\<close> at the head of \<open>to_visit\<close>: the rest of the frontier stays, in order,
  and every pair appended behind it has passed the test of line 174, so its URL and
  the seed are parsed and have the same \<open>netloc\<close>, and has the depth \<open>cd + 1\<close>, which
  is at most \<open>depth + 1\<close>. This holds of an iteration that an exception ends as well,
  for the pairs appended before it.
\<close>

theorem enqueue_netloc_depth:
  assumes "to_visit s = (cu, cd) # rest"
  shows "\<exists>new. to_visit (crawl_step e url depth s) = rest @ new \<and>
           (\<forall>p \<in> set new.
              same_netloc e (fst p) url = Some True \<and>
              snd p = cd + 1 \<and> snd p \<le> depth + 1)"
proof -
  from crawl_step_shape [OF assms, of e url depth] obtain new where
    n: "to_visit (crawl_step e url depth s) = rest @ new"
    and p: "\<forall>p \<in> set new. cd \<le> depth \<and> snd p = cd + 1 \<and>
              same_netloc e (fst p) url = Some True"
    by blast
  from p have "\<forall>p \<in> set new.
              same_netloc e (fst p) url = Some True \<and>
              snd p = cd + 1 \<and> snd p \<le> depth + 1"
    by auto
  with n show ?thesis by blast
qed

text \<open>
  The iteration that expands the seed of \<open>two_scheme_site\<close> is such an iteration.
\<close>

theorem enqueue_netloc_depth_witness:
  "to_visit (crawl_init ''http://a/i'') = (''http://a/i'', 0) # [] \<and>
   (\<exists>new. to_visit (crawl_step two_scheme_site ''http://a/i'' 0 (crawl_init ''http://a/i'')) = [] @ new \<and>
      (\<forall>p \<in> set new.
         same_netloc two_scheme_site (fst p) ''http://a/i'' = Some True \<and>
         snd p = 0 + 1 \<and> snd p \<le> 0 + 1))"
proof -
  have h: "to_visit (crawl_init ''http://a/i'') = (''http://a/i'', 0) # []"
    by (simp add: crawl_init_def)
  show ?thesis
    using h enqueue_netloc_depth [OF h, of two_scheme_site "''http://a/i''" 0] by blast
qed

text \<open>
  Claim C1 as it is stated fails on \<open>two_scheme_site\<close> with maximal depth 0: the
  first iteration marks the seed visited and then appends the pair of
  \<^verbatim>\<open>https://a/s\<close>, whose authority is not the seed's, and the pair of the seed itself,
  which is visited by then; both at depth 1, which exceeds 0.
\<close>

theorem enqueue_invariant_counterexample:
  "to_visit (crawl_step two_scheme_site ''http://a/i'' 0 (crawl_init ''http://a/i'')) =
     [(''https://a/s'', 1), (''http://a/i'', 1)] \<and>
   ''http://a/i'' \<in> visited (crawl_step two_scheme_site ''http://a/i'' 0 (crawl_init ''http://a/i'')) \<and>
   authority two_scheme_site ''https://a/s'' \<noteq> authority two_scheme_site ''http://a/i'' \<and>
   \<not> (1 :: int) \<le> 0"
  using two_scheme_authority by (simp add: two_scheme_first)

text \<open>
  Claim C2, as amended. The claim asks that every URL of the result has the authority
  (scheme, host and port) of the seed. The loop compares \<open>netloc\<close>, which has no
  scheme. Every URL of the set that \<open>crawl_website\<close> returns is the seed or has passed
  the test of line 174 against the seed; so with a seed that \<^verbatim>\<open>urlparse\<close> accepts,
  every URL of the result has the \<open>netloc\<close> of the seed.
\<close>

theorem result_same_netloc:
  "\<forall>S. crawl_website e url depth = Inr S \<longrightarrow>
     (\<forall>u \<in> S. (u = url \<or> same_netloc e u url = Some True) \<and>
              ((\<exists>q. urlparse e url = Some q) \<longrightarrow> same_netloc e u url = Some True))"
proof -
  let ?P = "\<lambda>s. (\<forall>u \<in> visited s. u = url \<or> same_netloc e u url = Some True) \<and>
         (\<forall>p \<in> set (to_visit s). fst p = url \<or> same_netloc e (fst p) url = Some True)"
  have "?P (crawl_loop e url depth (crawl_init url))"
  proof (rule crawl_loop_invariant)
    show "?P (crawl_init url)" by (simp add: crawl_init_def)
  next
    fix s :: crawl_state
    assume "?P s" "to_visit s \<noteq> []"
    then show "?P (crawl_step e url depth s)"
      using crawl_step_netloc [of s url e depth] by blast
  qed
  then have v: "\<forall>u \<in> visited (crawl_loop e url depth (crawl_init url)).
      u = url \<or> same_netloc e u url = Some True"
    by blast
  have seed: "(\<exists>q. urlparse e url = Some q) \<longrightarrow> same_netloc e url url = Some True"
    by (auto simp: same_netloc_def)
  show ?thesis
  proof (intro allI impI ballI)
    fix S u
    assume r: "crawl_website e url depth = Inr S" and u: "u \<in> S"
    have "S = visited (crawl_loop e url depth (crawl_init url))"
      using r by (rule crawl_website_Inr)
    then have "u = url \<or> same_netloc e u url = Some True"
      using u v by blast
    then show "(u = url \<or> same_netloc e u url = Some True) \<and>
              ((\<exists>q. urlparse e url = Some q) \<longrightarrow> same_netloc e u url = Some True)"
      using seed by blast
  qed
qed

theorem result_same_netloc_witness:
  "crawl_website two_scheme_site ''http://a/i'' 1 = Inr {''https://a/s'', ''http://a/i''} \<and>
   ''https://a/s'' \<in> {''https://a/s'', ''http://a/i''} \<and>
   urlparse two_scheme_site ''http://a/i'' = Some \<lparr>scheme = ''http'', netloc = ''a''\<rparr> \<and>
   same_netloc two_scheme_site ''https://a/s'' ''http://a/i'' = Some True"
proof -
  have r: "crawl_website two_scheme_site ''http://a/i'' 1 = Inr {''https://a/s'', ''http://a/i''}"
    by (simp add: crawl_website_def two_scheme_crawl)
  have m: "''https://a/s'' \<in> {''https://a/s'', ''http://a/i''}"
    by simp
  have q: "urlparse two_scheme_site ''http://a/i'' = Some \<lparr>scheme = ''http'', netloc = ''a''\<rparr>"
    by (simp add: two_scheme_site_def world_def stub_urlparse_def)
  show ?thesis
    using r m q result_same_netloc [of two_scheme_site "''http://a/i''" 1] by blast
qed

text \<open>
  Claim C2 as it is stated fails on \<open>two_scheme_site\<close>: \<^verbatim>\<open>https://a/s\<close> is in the
  result of the crawl from \<^verbatim>\<open>http://a/i\<close>, and its scheme is not the seed's.
\<close>

theorem result_authority_counterexample:
  "crawl_website two_scheme_site ''http://a/i'' 1 = Inr {''https://a/s'', ''http://a/i''} \<and>
   ''https://a/s'' \<in> {''https://a/s'', ''http://a/i''} \<and>
   authority two_scheme_site ''https://a/s'' \<noteq> authority two_scheme_site ''http://a/i''"
  using two_scheme_authority by (simp add: crawl_website_def two_scheme_crawl)

text \<open>
  Claim C3. A pair taken from the frontier with a depth above the maximum is dropped:
  the iteration changes nothing but the frontier, so nothing is fetched, marked or
  expanded. Over the whole crawl, every pair that was fetched has a depth within the
  maximum, and the visited set, which is the result, holds exactly the URLs that were
  fetched. The state is that in which the loop ends, with or without an exception.
\<close>

theorem depth_bound:
  "(to_visit s = (cu, cd) # rest \<and> cd > depth \<longrightarrow>
      crawl_step e url depth s = s\<lparr>to_visit := rest\<rparr>) \<and>
   (\<forall>p \<in> set (crawled (crawl_loop e url depth (crawl_init url))). snd p \<le> depth) \<and>
   visited (crawl_loop e url depth (crawl_init url)) =
     fst ` set (crawled (crawl_loop e url depth (crawl_init url)))"
proof -
  let ?P = "\<lambda>s. (\<forall>p \<in> set (crawled s). snd p \<le> depth) \<and> visited s = fst ` set (crawled s)"
  have "?P (crawl_loop e url depth (crawl_init url))"
  proof (rule crawl_loop_invariant)
    show "?P (crawl_init url)" by (simp add: crawl_init_def)
  next
    fix s :: crawl_state
    assume "?P s" "to_visit s \<noteq> []"
    then show "?P (crawl_step e url depth s)"
      using crawl_step_trace [of s depth e url] by blast
  qed
  moreover have "to_visit s = (cu, cd) # rest \<and> cd > depth \<longrightarrow>
      crawl_step e url depth s = s\<lparr>to_visit := rest\<rparr>"
    using crawl_step_skip [of s cu cd rest depth e url] by blast
  ultimately show ?thesis by blast
qed

text \<open>
  On \<open>two_scheme_site\<close>: with maximal depth 0 the state after the first iteration has
  \<^verbatim>\<open>https://a/s\<close> at depth 1 in front, and the next iteration only drops it; with
  maximal depth 1 it is fetched, at depth 1.
\<close>

theorem depth_bound_witness:
  "crawl_step two_scheme_site ''http://a/i'' 0
     \<lparr>visited = {''http://a/i''},
      to_visit = [(''https://a/s'', 1), (''http://a/i'', 1)],
      crawled = [(''http://a/i'', 0)],
      raised = None\<rparr> =
     \<lparr>visited = {''http://a/i''},
      to_visit = [(''http://a/i'', 1)],
      crawled = [(''http://a/i'', 0)],
      raised = None\<rparr> \<and>
   (''https://a/s'', 1) \<in> set (crawled (crawl_loop two_scheme_site ''http://a/i'' 1 (crawl_init ''http://a/i''))) \<and>
   snd (''https://a/s'', 1 :: int) \<le> 1 \<and>
   visited (crawl_loop two_scheme_site ''http://a/i'' 1 (crawl_init ''http://a/i'')) =
     fst ` set (crawled (crawl_loop two_scheme_site ''http://a/i'' 1 (crawl_init ''http://a/i'')))"
proof -
  have m: "(''https://a/s'', 1) \<in> set (crawled (crawl_loop two_scheme_site ''http://a/i'' 1 (crawl_init ''http://a/i'')))"
    by (simp add: two_scheme_crawl)
  have skip: "crawl_step two_scheme_site ''http://a/i'' 0
     \<lparr>visited = {''http://a/i''},
      to_visit = [(''https://a/s'', 1), (''http://a/i'', 1)],
      crawled = [(''http://a/i'', 0)],
      raised = None\<rparr> =
     \<lparr>visited = {''http://a/i''},
      to_visit = [(''http://a/i'', 1)],
      crawled = [(''http://a/i'', 0)],
      raised = None\<rparr>"
    using depth_bound [where s = "\<lparr>visited = {''http://a/i''},
        to_visit = [(''https://a/s'', 1), (''http://a/i'', 1)],
        crawled = [(''http://a/i'', 0)], raised = None\<rparr>" and cu = "''https://a/s''" and cd = 1
        and rest = "[(''http://a/i'', 1)]" and depth = 0 and e = two_scheme_site
        and url = "''http://a/i''"]
    by simp
  show ?thesis
    using m skip
      depth_bound [where s = "crawl_init ''http://a/i''" and cu = "''http://a/i''" and cd = 0
        and rest = "[]" and depth = 1 and e = two_scheme_site and url = "''http://a/i''"]
    by simp
qed

text \<open>
  Claim C4. The crawl terminates: for every site, seed and maximal depth some number
  of iterations ends the loop, and the state then is what \<open>crawl_loop\<close> yields. The
  loop ends with the frontier empty, and \<open>crawl_website\<close> returns the visited set; or
  it is ended by an exception that no handler catches, which leaves \<open>crawl_website\<close>.
  Each page has finitely many links since \<open>find_all_a_href\<close> yields a list. The
  function \<open>crawl_loop\<close> itself is total by the termination proof above, whose
  measure is the multiset of the depths still allowed to the pairs on the frontier.
\<close>

theorem crawl_terminates:
  "\<exists>n. crawl_loop e url depth (crawl_init url) = (crawl_step e url depth ^^ n) (crawl_init url) \<and>
       (to_visit ((crawl_step e url depth ^^ n) (crawl_init url)) = [] \<and>
        raised ((crawl_step e url depth ^^ n) (crawl_init url)) = None \<and>
        crawl_website e url depth = Inr (visited ((crawl_step e url depth ^^ n) (crawl_init url)))
        \<or>
        (\<exists>x. raised ((crawl_step e url depth ^^ n) (crawl_init url)) = Some x \<and>
             crawl_website e url depth = Inl x))"
proof -
  from crawl_loop_iterates [of e url depth "crawl_init url"] obtain n where
    fin: "to_visit ((crawl_step e url depth ^^ n) (crawl_init url)) = [] \<or>
          raised ((crawl_step e url depth ^^ n) (crawl_init url)) \<noteq> None"
    and eq: "crawl_loop e url depth (crawl_init url) =
          (crawl_step e url depth ^^ n) (crawl_init url)"
    by blast
  let ?s = "(crawl_step e url depth ^^ n) (crawl_init url)"
  have "to_visit ?s = [] \<and> raised ?s = None \<and> crawl_website e url depth = Inr (visited ?s) \<or>
        (\<exists>x. raised ?s = Some x \<and> crawl_website e url depth = Inl x)"
  proof (cases "raised ?s")
    case None
    then have "crawl_website e url depth = Inr (visited ?s)"
      using crawl_website_returns [of e url depth] eq by simp
    then show ?thesis using None fin by simp
  next
    case (Some x)
    then have "crawl_website e url depth = Inl x"
      using crawl_website_raises [of e url depth x] eq by simp
    then show ?thesis using Some by simp
  qed
  with eq show ?thesis by blast
qed

text \<open>
  An instance with a cycle: on \<open>cyclic_site\<close> two pages link to each other.
\<close>

theorem crawl_terminates_witness:
  "\<exists>n. crawl_loop cyclic_site ''http://a/i'' 5 (crawl_init ''http://a/i'') =
         (crawl_step cyclic_site ''http://a/i'' 5 ^^ n) (crawl_init ''http://a/i'') \<and>
       (to_visit ((crawl_step cyclic_site ''http://a/i'' 5 ^^ n) (crawl_init ''http://a/i'')) = [] \<and>
        raised ((crawl_step cyclic_site ''http://a/i'' 5 ^^ n) (crawl_init ''http://a/i'')) = None \<and>
        crawl_website cyclic_site ''http://a/i'' 5 =
          Inr (visited ((crawl_step cyclic_site ''http://a/i'' 5 ^^ n) (crawl_init ''http://a/i'')))
        \<or>
        (\<exists>x. raised ((crawl_step cyclic_site ''http://a/i'' 5 ^^ n) (crawl_init ''http://a/i'')) = Some x \<and>
             crawl_website cyclic_site ''http://a/i'' 5 = Inl x))"
  by (rule crawl_terminates)




text \<open>
  Claim C10. With a negative maximal depth the seed fails the depth check of the first
  iteration: the empty set is returned, and nothing is fetched.
\<close>

theorem negative_depth_empty:
  assumes "depth < 0"
  shows "crawl_website e url depth = Inr {} \<and>
         crawled (crawl_loop e url depth (crawl_init url)) = []"
proof -
  have ne: "to_visit (crawl_init url) \<noteq> []" and nr: "raised (crawl_init url) = None"
    by (simp_all add: crawl_init_def)
  have tv: "to_visit (crawl_init url) = (url, 0) # []" by (simp add: crawl_init_def)
  have skip: "crawl_step e url depth (crawl_init url) = (crawl_init url)\<lparr>to_visit := []\<rparr>"
    using crawl_step_skip [OF tv, of depth e url] assms by simp
  have "crawl_loop e url depth (crawl_init url) = (crawl_init url)\<lparr>to_visit := []\<rparr>"
    using crawl_loop_unfold [OF ne nr, of e url depth] skip
      crawl_loop_empty [of "(crawl_init url)\<lparr>to_visit := []\<rparr>" e url depth]
    by simp
  then show ?thesis by (simp add: crawl_website_def crawl_init_def)
qed

theorem negative_depth_empty_witness:
  "(-1 :: int) < 0 \<and> crawl_website two_scheme_site ''http://a/i'' (-1) = Inr {} \<and>
   crawled (crawl_loop two_scheme_site ''http://a/i'' (-1) (crawl_init ''http://a/i'')) = []"
proof -
  have h: "(-1 :: int) < 0" by simp
  show ?thesis using h negative_depth_empty [OF h, of two_scheme_site "''http://a/i''"] by blast
qed

section \<open>The probes and the version scraper\<close>





text \<open>
  A response with the status 403 is no hit of the admin probe: \<^verbatim>\<open>raise_for_status\<close>
  raises on it, so the test of line 87 is not reached.
\<close>

lemma forbidden_is_no_hit:
  assumes "urljoin e url path = Some u" and "requests_get e u = Some r"
    and "status_code r = 403"
  shows "check_admin_loop e url [path] [] = Inr []"
  using assms by (simp add: raise_for_status_def)






text \<open>
  Claim C9. On a page that is fetched and parsed, whose only \<^verbatim>\<open>meta\<close> tag has the name
  \<^verbatim>\<open>generator\<close> and the content \<^verbatim>\<open>WordPress 6.2\<close>, and whose body does not contain
  \<^verbatim>\<open>wp-content\<close>, the scraper returns one finding, which contains \<^verbatim>\<open>WordPress 6.2\<close>,
  and asks \<^verbatim>\<open>requests.get\<close> for the page alone.
\<close>

theorem generator_only:
  assumes "requests_get e url = Some r"
    and "raise_for_status r = Inr ()"
    and "BeautifulSoup e (resp_text r) = Some soup"
    and "find_all ''meta'' soup = [m]"
    and "attrs m ''name'' = Some ''generator''"
    and "attrs m ''content'' = Some ''WordPress 6.2''"
    and "\<not> sublist ''wp-content'' (resp_text r)"
  shows "get_installed_software_versions e url = ([url], Inr [''Generator: WordPress 6.2'']) \<and>
         sublist ''WordPress 6.2'' ''Generator: WordPress 6.2''"
proof -
  have l: "lower ''generator'' = ''generator''"
    by (simp add: lower_def lower_char_def)
  have g: "generator_metas [m] [] = [''Generator: WordPress 6.2'']"
    using assms(5,6) l by (simp add: sublist_code)
  have "get_installed_software_versions e url = ([url], Inr [''Generator: WordPress 6.2''])"
    using assms(1,2,3,4,7) g
    by (simp add: get_installed_software_versions_def report_def Let_def)
  moreover have "sublist ''WordPress 6.2'' ''Generator: WordPress 6.2''"
    by (simp add: sublist_code)
  ultimately show ?thesis by blast
qed

text \<open>On \<open>generator_site\<close>, whose page is that tag.\<close>

theorem generator_only_witness:
  "get_installed_software_versions generator_site ''http://a/'' =
     ([''http://a/''], Inr [''Generator: WordPress 6.2'']) \<and>
   sublist ''WordPress 6.2'' ''Generator: WordPress 6.2''"
proof -
  let ?r = "\<lparr>status_code = 200, resp_text = generator_page\<rparr>"
  let ?m = "\<lparr>tag_name = ''meta'',
           attrs = [''name'' \<mapsto> ''generator'', ''content'' \<mapsto> ''WordPress 6.2'']\<rparr>"
  have 1: "requests_get generator_site ''http://a/'' = Some ?r"
    by (simp add: generator_site_def world_def)
  have 2: "raise_for_status ?r = Inr ()"
    by (simp add: raise_for_status_def)
  have 3: "BeautifulSoup generator_site (resp_text ?r) = Some [?m]"
    by (simp add: generator_site_def world_def)
  have 4: "find_all ''meta'' [?m] = [?m]"
    by (simp add: find_all_def)
  have 5: "attrs ?m ''name'' = Some ''generator''" by simp
  have 6: "attrs ?m ''content'' = Some ''WordPress 6.2''" by simp
  have 7: "\<not> sublist ''wp-content'' (resp_text ?r)"
    by (simp add: generator_page_def dq_def sublist_code)
  show ?thesis by (rule generator_only [OF 1 2 3 4 5 6 7])
qed

text \<open>
  Claim C6. The claim asks that no exception leaves a component, and in particular
  that the version scraper returns a list of findings for a page with \<^verbatim>\<open>wp-content\<close>
  and a tag \<^verbatim>\<open><meta name="generator">\<close> without \<^verbatim>\<open>content\<close>. On \<open>bare_generator_site\<close>,
  whose page is that, the scraper fetches the page and is left by the \<^verbatim>\<open>KeyError\<close> of
  the subscript \<^verbatim>\<open>generator_tag['content']\<close> of line 119: the handlers of lines 131
  and 139 catch a \<^verbatim>\<open>RequestException\<close> only. The loop of lines 107 to 110 guards the
  same subscript with \<^verbatim>\<open>'content' in meta.attrs\<close>.
\<close>

theorem bare_generator_KeyError:
  "requests_get bare_generator_site ''http://a/'' =
     Some \<lparr>status_code = 200, resp_text = bare_generator_page\<rparr> \<and>
   sublist ''wp-content'' bare_generator_page \<and>
   get_installed_software_versions bare_generator_site ''http://a/'' =
     ([''http://a/''], Inl KeyError)"
  by (simp add: get_installed_software_versions_def bare_generator_site_def
      bare_generator_page_def dq_def world_def
      raise_for_status_def find_all_def soup_find_def generator_tag_line_def
      lower_def lower_char_def sublist_code Let_def)

end
